theory Spec2Isabelle
  imports Main "HOL-Library.Word" "HOL-Library.Signed_Division"
begin

section \<open>Graceful listeners (package manners, listener.go)\<close>

text \<open>
  The file listener.go wraps a \<^verbatim>\<open>net.Listener\<close> so that closing it is idempotent and so
  that an accept failure after the close is told apart from a real I/O failure. This
  theory embeds the three methods and the constructor of that file and proves the
  properties stated about them.
\<close>

subsection \<open>Errors\<close>

text \<open>
  Go's \<^verbatim>\<open>error\<close> is an interface. A non-nil error is either a value of some type of the
  environment (\<open>Underlying\<close>) or the marker \<^verbatim>\<open>listenerAlreadyClosed{err}\<close> of lines 59-61,
  a struct that embeds the error it wraps. The nil error is \<open>None\<close> of
  \<open>'e error option\<close>.
\<close>

datatype 'e error =
    Underlying 'e
  | listenerAlreadyClosed (embedded: "'e error")

text \<open>The type check \<^verbatim>\<open>_, ok := err.(listenerAlreadyClosed)\<close> of a caller.\<close>

fun isListenerAlreadyClosed :: "'e error option \<Rightarrow> bool" where
  "isListenerAlreadyClosed None = False"
| "isListenerAlreadyClosed (Some (Underlying e)) = False"
| "isListenerAlreadyClosed (Some (listenerAlreadyClosed e)) = True"

subsection \<open>The wrapped listener and the world\<close>

text \<open>
  A \<^verbatim>\<open>net.Listener\<close> is an interface value: an object of the environment on which
  \<^verbatim>\<open>Accept()\<close> and \<^verbatim>\<open>Close()\<close> can be called. An object is what it answers: each method
  gives its results and the object as it is after the call. \<^verbatim>\<open>Accept()\<close> returns a pair
  \<^verbatim>\<open>(net.Conn, error)\<close>; nothing forces an implementation to return a nil connection
  with an error, so both components are kept. \<open>'c\<close> is the type of \<^verbatim>\<open>net.Conn\<close> values.
  A call that blocks forever has no result; the functions below describe the calls
  that return, and in the interleaved executions further down a blocked call is one
  that is not scheduled.
\<close>

codatatype ('c, 'e) net_Listener = net_Listener
  (Accept_of: "('c \<times> 'e error option) \<times> ('c, 'e) net_Listener")
  (Close_of: "'e error option \<times> ('c, 'e) net_Listener")

text \<open>
  The world holds the listener objects, by reference \<open>'r\<close>, and the calls made on them
  so far, each with what it returned. References are those of existing objects: a nil
  \<^verbatim>\<open>net.Listener\<close> handed to \<^verbatim>\<open>NewListener\<close> makes every method call on it panic and is
  not part of this model.
\<close>

datatype ('r, 'c, 'e) call =
    AcceptCalled 'r 'c "'e error option"
  | CloseCalled 'r "'e error option"

record ('r, 'c, 'e) world =
  listeners :: "'r \<Rightarrow> ('c, 'e) net_Listener"
  trace :: "('r, 'c, 'e) call list"

text \<open>The method calls \<^verbatim>\<open>l.Listener.Accept()\<close> and \<^verbatim>\<open>l.Listener.Close()\<close> through the interface.\<close>

definition Listener_Accept ::
  "'r \<Rightarrow> ('r, 'c, 'e) world \<Rightarrow> ('c \<times> 'e error option) \<times> ('r, 'c, 'e) world" where
  "Listener_Accept r w =
     (case Accept_of (listeners w r) of
        ((conn, err), obj') \<Rightarrow>
          ((conn, err),
           w\<lparr>listeners := (listeners w)(r := obj'),
             trace := trace w @ [AcceptCalled r conn err]\<rparr>))"

definition Listener_Close ::
  "'r \<Rightarrow> ('r, 'c, 'e) world \<Rightarrow> 'e error option \<times> ('r, 'c, 'e) world" where
  "Listener_Close r w =
     (case Close_of (listeners w r) of
        (err, obj') \<Rightarrow>
          (err,
           w\<lparr>listeners := (listeners w)(r := obj'),
             trace := trace w @ [CloseCalled r err]\<rparr>))"

subsection \<open>sync/atomic on an int32 cell\<close>

text \<open>
  The two operations of \<^verbatim>\<open>sync/atomic\<close> that the file uses, on the content of the cell.
  Each is one indivisible step. The comparisons with 0 and 1 read the same on the
  signed \<^verbatim>\<open>int32\<close> and on its 32 bits.
\<close>

definition LoadInt32 :: "32 word \<Rightarrow> 32 word" where
  "LoadInt32 cell = cell"

definition CompareAndSwapInt32 :: "32 word \<Rightarrow> 32 word \<Rightarrow> 32 word \<Rightarrow> bool \<times> 32 word" where
  "CompareAndSwapInt32 cell old new = (if cell = old then (True, new) else (False, cell))"

subsection \<open>The structs\<close>

text \<open>Lines 22-25: \<^verbatim>\<open>http.ConnState\<close> is an \<^verbatim>\<open>int\<close>, and \<^verbatim>\<open>http.StateNew\<close> is its value 0.\<close>

record 'c gracefulConn =
  Conn :: 'c
  lastHTTPState :: int

definition StateNew :: int where
  "StateNew = 0"

text \<open>Lines 31-34.\<close>

record 'r GracefulListener =
  Listener :: 'r
  "open" :: "32 word"

subsection \<open>NewListener, Accept, Close\<close>

text \<open>
  Every function takes the world and returns it, so that what a function does to the
  wrapped listener shows in its result. The methods have a pointer receiver: they take
  the struct and return it as it is after the call.
\<close>

definition NewListener ::
  "'r \<Rightarrow> ('r, 'c, 'e) world \<Rightarrow> 'r GracefulListener \<times> ('r, 'c, 'e) world" where
  "NewListener l w = (\<lparr>Listener = l, open = 1\<rparr>, w)"

definition Accept ::
  "'r GracefulListener \<Rightarrow> ('r, 'c, 'e) world \<Rightarrow>
     ('c gracefulConn option \<times> 'e error option) \<times> 'r GracefulListener \<times> ('r, 'c, 'e) world" where
  "Accept l w =
     (case Listener_Accept (Listener l) w of
        ((conn, err), w') \<Rightarrow>
          (case err of
             Some e \<Rightarrow>
               ((None, Some (if LoadInt32 (open l) = 0 then listenerAlreadyClosed e else e)), l, w')
           | None \<Rightarrow>
               ((Some \<lparr>Conn = conn, lastHTTPState = 0\<rparr>, None), l, w')))"

definition Close ::
  "'r GracefulListener \<Rightarrow> ('r, 'c, 'e) world \<Rightarrow>
     'e error option \<times> 'r GracefulListener \<times> ('r, 'c, 'e) world" where
  "Close l w =
     (case CompareAndSwapInt32 (open l) 1 0 of
        (True, v) \<Rightarrow>
          (case Listener_Close (Listener l) (w :: ('r, 'c, 'e) world) of
             (err, w') \<Rightarrow> (err, l\<lparr>open := v\<rparr>, w'))
      | (False, v) \<Rightarrow> (None, l\<lparr>open := v\<rparr>, w))"

subsection \<open>Promoted methods of the embedded connection\<close>

text \<open>
  \<^verbatim>\<open>gracefulConn\<close> declares no method. It embeds \<^verbatim>\<open>net.Conn\<close>, so Go promotes every method
  of the embedded value: \<^verbatim>\<open>g.Read(b)\<close> is \<^verbatim>\<open>g.Conn.Read(b)\<close>. A method of the raw connection
  is given as what it returns and the connection after the call.
\<close>

definition promoted :: "('c \<Rightarrow> 'a \<times> 'c) \<Rightarrow> 'c gracefulConn \<Rightarrow> 'a \<times> 'c gracefulConn" where
  "promoted m g = (case m (Conn g) of (res, c') \<Rightarrow> (res, g\<lparr>Conn := c'\<rparr>))"

subsection \<open>Interleaved executions\<close>

text \<open>
  Goroutines share one \<^verbatim>\<open>*GracefulListener\<close>. A call of \<^verbatim>\<open>Accept\<close> is two steps: the
  call of the wrapped listener (line 38) and, when that failed, the atomic load of
  line 40. A call of \<^verbatim>\<open>Close\<close> is two steps: the compare-and-swap of line 52 and, when
  it succeeded, the call of the wrapped listener (line 53). Steps of different calls
  interleave in any order. The flag of \<open>Close_returned\<close> records whether the call had
  won the swap.
\<close>

datatype ('c, 'e) call_state =
    Accept_invoked
  | Accept_failed "'e error"
  | Accept_returned "'c gracefulConn option" "'e error option"
  | Close_invoked
  | Close_swapped
  | Close_returned bool "'e error option"

fun step_call ::
  "('c, 'e) call_state \<Rightarrow> 'r GracefulListener \<Rightarrow> ('r, 'c, 'e) world \<Rightarrow>
     ('c, 'e) call_state \<times> 'r GracefulListener \<times> ('r, 'c, 'e) world" where
  "step_call Accept_invoked l w =
     (case Listener_Accept (Listener l) w of
        ((conn, err), w') \<Rightarrow>
          (case err of
             Some e \<Rightarrow> (Accept_failed e, l, w')
           | None \<Rightarrow> (Accept_returned (Some \<lparr>Conn = conn, lastHTTPState = 0\<rparr>) None, l, w')))"
| "step_call (Accept_failed e) l w =
     (Accept_returned None
        (Some (if LoadInt32 (open l) = 0 then listenerAlreadyClosed e else e)), l, w)"
| "step_call Close_invoked l w =
     (case CompareAndSwapInt32 (open l) 1 0 of
        (True, v) \<Rightarrow> (Close_swapped, l\<lparr>open := v\<rparr>, w)
      | (False, v) \<Rightarrow> (Close_returned False None, l\<lparr>open := v\<rparr>, w))"
| "step_call Close_swapped l w =
     (case Listener_Close (Listener l) w of
        (err, w') \<Rightarrow> (Close_returned True err, l, w'))"
| "step_call (Accept_returned c err) l w = (Accept_returned c err, l, w)"
| "step_call (Close_returned b err) l w = (Close_returned b err, l, w)"

record ('r, 'c, 'e) config =
  self :: "'r GracefulListener"
  wld :: "('r, 'c, 'e) world"
  calls :: "('c, 'e) call_state list"

text \<open>
  An event starts a new call in some goroutine or lets the call number \<open>i\<close> take its
  next step. A schedule is a list of events.
\<close>

datatype event = Call_Accept | Call_Close | Step nat

fun exec_event :: "event \<Rightarrow> ('r, 'c, 'e) config \<Rightarrow> ('r, 'c, 'e) config" where
  "exec_event Call_Accept cfg = cfg\<lparr>calls := calls cfg @ [Accept_invoked]\<rparr>"
| "exec_event Call_Close cfg = cfg\<lparr>calls := calls cfg @ [Close_invoked]\<rparr>"
| "exec_event (Step i) cfg =
     (if i < length (calls cfg) then
        (case step_call (calls cfg ! i) (self cfg) (wld cfg) of
           (c', l', w') \<Rightarrow> \<lparr>self = l', wld = w', calls = (calls cfg)[i := c']\<rparr>)
      else cfg)"

fun exec :: "event list \<Rightarrow> ('r, 'c, 'e) config \<Rightarrow> ('r, 'c, 'e) config" where
  "exec [] cfg = cfg"
| "exec (ev # evs) cfg = exec evs (exec_event ev cfg)"

text \<open>The values of the flag along a schedule, the first one before any event.\<close>

fun flags :: "event list \<Rightarrow> ('r, 'c, 'e) config \<Rightarrow> 32 word list" where
  "flags [] cfg = [open (self cfg)]"
| "flags (ev # evs) cfg = open (self cfg) # flags evs (exec_event ev cfg)"

fun transitions :: "'a list \<Rightarrow> nat" where
  "transitions (x # y # ys) = (if x \<noteq> y then 1 else 0) + transitions (y # ys)"
| "transitions [x] = 0"
| "transitions [] = 0"

text \<open>
  The start: a listener fresh from \<^verbatim>\<open>NewListener\<close>, no call made on the wrapped listener
  yet, no call of the wrapper in flight.
\<close>

definition start :: "'r \<Rightarrow> ('r, 'c, 'e) world \<Rightarrow> ('r, 'c, 'e) config" where
  "start r w =
     (case NewListener r (w\<lparr>trace := []\<rparr>) of
        (l, w') \<Rightarrow> \<lparr>self = l, wld = w', calls = []\<rparr>)"

text \<open>The results of the calls of \<^verbatim>\<open>Close()\<close> on the wrapped listener, in order.\<close>

fun closes :: "('r, 'c, 'e) call list \<Rightarrow> 'e error option list" where
  "closes [] = []"
| "closes (CloseCalled r err # cs) = err # closes cs"
| "closes (AcceptCalled r c err # cs) = closes cs"

text \<open>A call of \<^verbatim>\<open>Close\<close> that has won the compare-and-swap.\<close>

fun swapped :: "('c, 'e) call_state \<Rightarrow> bool" where
  "swapped Close_swapped = True"
| "swapped (Close_returned b err) = b"
| "swapped _ = False"

fun returned :: "('c, 'e) call_state \<Rightarrow> bool" where
  "returned (Accept_returned c err) = True"
| "returned (Close_returned b err) = True"
| "returned _ = False"

subsection \<open>A listener for the examples\<close>

text \<open>
  A wrapped listener that answers \<^verbatim>\<open>Accept()\<close> from a list of results, then with a last
  result for ever, and answers \<^verbatim>\<open>Close()\<close> with a fixed result.
\<close>

primcorec replay ::
  "('c \<times> 'e error option) list \<Rightarrow> 'c \<times> 'e error option \<Rightarrow> 'e error option \<Rightarrow>
     ('c, 'e) net_Listener" where
  "Accept_of (replay rs d cr) =
     (case rs of [] \<Rightarrow> (d, replay [] d cr) | x # xs \<Rightarrow> (x, replay xs d cr))"
| "Close_of (replay rs d cr) = (cr, replay rs d cr)"

text \<open>
  A \<^verbatim>\<open>*GracefulListener\<close> is itself a \<^verbatim>\<open>net.Listener\<close>: its methods are \<open>Accept\<close> and \<open>Close\<close>
  above. This is the object it is for whoever holds it as a \<^verbatim>\<open>net.Listener\<close>, the wrapped
  listener being the object \<open>inner\<close>.
\<close>

primcorec asListener ::
  "unit GracefulListener \<Rightarrow> ('c, 'e) net_Listener \<Rightarrow> ('c gracefulConn option, 'e) net_Listener" where
  "Accept_of (asListener l inner) =
     (case Accept l \<lparr>listeners = (\<lambda>_. inner), trace = []\<rparr> of
        (res, l', w') \<Rightarrow> (res, asListener l' (listeners w' ())))"
| "Close_of (asListener l inner) =
     (case Close l \<lparr>listeners = (\<lambda>_. inner), trace = []\<rparr> of
        (err, l', w') \<Rightarrow> (err, asListener l' (listeners w' ())))"

definition sample_world :: "(nat, string, string) world" where
  "sample_world =
     \<lparr>listeners = (\<lambda>_. replay [(''conn 1'', None)]
                      ([], Some (Underlying ''use of closed network connection''))
                      (Some (Underlying ''close failed''))),
      trace = []\<rparr>"

subsection \<open>The keep-alive listener\<close>

text \<open>
  \<^verbatim>\<open>time.Duration\<close> is an \<^verbatim>\<open>int64\<close> count of nanoseconds; the constants are those of the
  package \<^verbatim>\<open>time\<close>.
\<close>

definition Nanosecond :: "64 word" where "Nanosecond = 1"
definition Microsecond :: "64 word" where "Microsecond = 1000 * Nanosecond"
definition Millisecond :: "64 word" where "Millisecond = 1000 * Microsecond"
definition Second :: "64 word" where "Second = 1000 * Millisecond"
definition Minute :: "64 word" where "Minute = 60 * Second"

text \<open>
  A \<^verbatim>\<open>*net.TCPConn\<close> is its socket: whether keep-alive is on, the keep-alive time in whole
  seconds as the kernel holds it and, in \<open>others\<close>, every other option and the rest of its
  state. Setting an option is a system call that the operating system may refuse;
  \<open>refuses\<close> is the error with which it refuses to set that option on this socket, if it
  does.
\<close>

datatype sockopt = SO_KEEPALIVE | TCP_KEEPIDLE

record ('o, 'e) TCPConn =
  keepAlive :: bool
  keepAlivePeriod :: int
  others :: 'o
  refuses :: "sockopt \<Rightarrow> 'e error option"

text \<open>
  \<^verbatim>\<open>SetKeepAlive\<close> and \<^verbatim>\<open>SetKeepAlivePeriod\<close> are methods of the package \<^verbatim>\<open>net\<close>, not of this
  repository; they are modelled as that package has them. Each returns an error, and
  leaves the option as it was when it returns one. \<^verbatim>\<open>SetKeepAlivePeriod\<close> takes 0 for
  the default of 15 seconds, does nothing for a negative duration, and rounds the
  duration up to whole seconds: \<^verbatim>\<open>roundDurationUp(d, to)\<close> is \<^verbatim>\<open>(d + to - 1) / to\<close> on
  \<^verbatim>\<open>int64\<close>, the sum wrapping around and the division truncating.
\<close>

definition defaultTCPKeepAliveIdle :: "64 word" where
  "defaultTCPKeepAliveIdle = 15 * Second"

definition roundDurationUp :: "64 word \<Rightarrow> 64 word \<Rightarrow> 64 word" where
  "roundDurationUp d to = word_of_int (sint (d + to - 1) sdiv sint to)"

definition SetKeepAlive ::
  "('o, 'e) TCPConn \<Rightarrow> bool \<Rightarrow> 'e error option \<times> ('o, 'e) TCPConn" where
  "SetKeepAlive tc keepalive =
     (case refuses tc SO_KEEPALIVE of
        Some err \<Rightarrow> (Some err, tc)
      | None \<Rightarrow> (None, tc\<lparr>keepAlive := keepalive\<rparr>))"

definition SetKeepAlivePeriod ::
  "('o, 'e) TCPConn \<Rightarrow> 64 word \<Rightarrow> 'e error option \<times> ('o, 'e) TCPConn" where
  "SetKeepAlivePeriod tc d =
     (if d \<noteq> 0 \<and> sint d < 0 then (None, tc)
      else
        (let d' = (if d = 0 then defaultTCPKeepAliveIdle else d);
             secs = sint (roundDurationUp d' Second)
         in case refuses tc TCP_KEEPIDLE of
              Some err \<Rightarrow> (Some err, tc)
            | None \<Rightarrow> (None, tc\<lparr>keepAlivePeriod := secs\<rparr>)))"

text \<open>
  \<^verbatim>\<open>AcceptTCP\<close> of \<^verbatim>\<open>*net.TCPListener\<close> returns either an error or a connection, never both
  and never neither.
\<close>

codatatype ('o, 'e) net_TCPListener = net_TCPListener
  (AcceptTCP: "('e error + ('o, 'e) TCPConn) \<times> ('o, 'e) net_TCPListener")

text \<open>
  Lines 69-71 and 73-81. Lines 78 and 79 call the two setters and discard the error
  that each returns.
\<close>

record ('o, 'e) tcpKeepAliveListener =
  TCPListener :: "('o, 'e) net_TCPListener"

definition tcpKeepAliveListener_Accept ::
  "('o, 'e) tcpKeepAliveListener \<Rightarrow>
     (('o, 'e) TCPConn option \<times> 'e error option) \<times> ('o, 'e) tcpKeepAliveListener" where
  "tcpKeepAliveListener_Accept ln =
     (case AcceptTCP (TCPListener ln) of
        (Inl err, obj') \<Rightarrow> ((None, Some err), ln\<lparr>TCPListener := obj'\<rparr>)
      | (Inr tc, obj') \<Rightarrow>
          (case SetKeepAlive tc True of
             (err1, tc1) \<Rightarrow>
               (case SetKeepAlivePeriod tc1 (3 * Minute) of
                  (err2, tc2) \<Rightarrow> ((Some tc2, None), ln\<lparr>TCPListener := obj'\<rparr>))))"

primcorec replayTCP ::
  "('e error + ('o, 'e) TCPConn) list \<Rightarrow> 'e error + ('o, 'e) TCPConn \<Rightarrow>
     ('o, 'e) net_TCPListener" where
  "AcceptTCP (replayTCP rs d) =
     (case rs of [] \<Rightarrow> (d, replayTCP [] d) | x # xs \<Rightarrow> (x, replayTCP xs d))"

subsection \<open>The states of an interleaved execution\<close>

text \<open>
  A call of \<^verbatim>\<open>Close\<close> that is past its compare-and-swap. While the listener is open
  there is none. Once it is closed, exactly one call \<open>k\<close> has won the swap; the wrapped
  listener has been closed by that call and no other, and only after it.
\<close>

fun past_swap :: "('c, 'e) call_state \<Rightarrow> bool" where
  "past_swap Close_swapped = True"
| "past_swap (Close_returned b err) = True"
| "past_swap _ = False"

definition still_open :: "('r, 'c, 'e) config \<Rightarrow> bool" where
  "still_open cfg \<longleftrightarrow>
     open (self cfg) = 1 \<and> closes (trace (wld cfg)) = [] \<and>
     (\<forall>i < length (calls cfg). \<not> past_swap (calls cfg ! i))"

definition closed_by :: "nat \<Rightarrow> ('r, 'c, 'e) config \<Rightarrow> bool" where
  "closed_by k cfg \<longleftrightarrow>
     open (self cfg) = 0 \<and> k < length (calls cfg) \<and>
     (\<forall>j < length (calls cfg). swapped (calls cfg ! j) \<longrightarrow> j = k) \<and>
     (\<forall>j < length (calls cfg). \<forall>err. calls cfg ! j = Close_returned False err \<longrightarrow> err = None) \<and>
     ((calls cfg ! k = Close_swapped \<and> closes (trace (wld cfg)) = []) \<or>
      (\<exists>err. calls cfg ! k = Close_returned True err \<and> closes (trace (wld cfg)) = [err]))"

definition coherent :: "('r, 'c, 'e) config \<Rightarrow> bool" where
  "coherent cfg \<longleftrightarrow> still_open cfg \<or> (\<exists>k. closed_by k cfg)"

subsection \<open>Inputs for the examples\<close>

text \<open>A wrapped listener on which every \<^verbatim>\<open>Accept()\<close> fails and \<^verbatim>\<open>Close()\<close> succeeds.\<close>

definition failing_world :: "(nat, string, string) world" where
  "failing_world =
     \<lparr>listeners = (\<lambda>_. replay [] ([], Some (Underlying ''too many open files'')) None),
      trace = []\<rparr>"

text \<open>
  Two goroutines call \<^verbatim>\<open>Close\<close>; the second one swaps first, the first one then finds the
  flag closed, and the second one closes the wrapped listener.
\<close>

definition two_closes :: "event list" where
  "two_closes = [Call_Close, Call_Close, Step 1, Step 0, Step 1]"

definition close_then_accept :: "event list" where
  "close_then_accept = [Call_Close, Step 0, Step 0]"

text \<open>
  A graceful listener that wraps a graceful listener:
  \<^verbatim>\<open>inner := NewListener(base); inner.Close(); outer := NewListener(inner)\<close>.
  \<open>nested_world\<close> is the world of the outer one, its wrapped listener the closed inner one.
\<close>

definition base_world :: "(unit, string, string) world" where
  "base_world =
     \<lparr>listeners = (\<lambda>_. replay [] ([], Some (Underlying ''use of closed network connection'')) None),
      trace = []\<rparr>"

definition closed_inner :: "unit GracefulListener \<times> (unit, string, string) world" where
  "closed_inner = (case NewListener () base_world of (l, w) \<Rightarrow> snd (Close l w))"

definition nested_world :: "(unit, string gracefulConn option, string) world" where
  "nested_world =
     \<lparr>listeners = (\<lambda>_. asListener (fst closed_inner) (listeners (snd closed_inner) ())),
      trace = []\<rparr>"

text \<open>
  A \<^verbatim>\<open>Read\<close> for the example: the connection is the string still to be read, and a read of
  \<open>n\<close> bytes takes them off its front.
\<close>

definition sample_Read :: "nat \<Rightarrow> string \<Rightarrow> string \<times> string" where
  "sample_Read n c = (take n c, drop n c)"

text \<open>
  Two sockets as \<^verbatim>\<open>AcceptTCP()\<close> may give them, keep-alive off and the keep-alive time at
  7200 seconds: one that lets its options be set, and one on which the operating system
  refuses every option.
\<close>

definition sample_socket :: "(string, string) TCPConn" where
  "sample_socket =
     \<lparr>keepAlive = False, keepAlivePeriod = 7200, others = ''TCP_NODELAY'',
      refuses = (\<lambda>_. None)\<rparr>"

definition refusing_socket :: "(string, string) TCPConn" where
  "refusing_socket =
     \<lparr>keepAlive = False, keepAlivePeriod = 7200, others = ''TCP_NODELAY'',
      refuses = (\<lambda>_. Some (Underlying ''invalid argument''))\<rparr>"

section \<open>Properties\<close>

subsection \<open>A call in one piece is its two steps\<close>

lemma Accept_steps:
  "(case step_call Accept_invoked l w of (c, l', w') \<Rightarrow> step_call c l' w') =
   (Accept_returned (fst (fst (Accept l w))) (snd (fst (Accept l w))), snd (Accept l w))"
  by (simp add: Accept_def split: prod.splits option.splits)

lemma Close_steps:
  "(case step_call Close_invoked l w of (c, l', w') \<Rightarrow> step_call c l' w') =
   (Close_returned (open l = 1) (fst (Close l w)), snd (Close l w))"
  by (auto simp add: Close_def CompareAndSwapInt32_def split: prod.splits option.splits)

text \<open>
  A call made while no other call takes a step is the schedule that starts it and lets it
  take its two steps: it does to the listener and to the world what the function does.
\<close>

lemma exec_Close_call:
  "exec [Call_Close, Step (length (calls cfg)), Step (length (calls cfg))] cfg =
     (case Close (self cfg) (wld cfg) of
        (err, l', w') \<Rightarrow>
          \<lparr>self = l', wld = w',
           calls = calls cfg @ [Close_returned (open (self cfg) = 1) err]\<rparr>)"
  by (simp add: Close_def CompareAndSwapInt32_def split: prod.splits)

lemma exec_Accept_call:
  "exec [Call_Accept, Step (length (calls cfg)), Step (length (calls cfg))] cfg =
     (case Accept (self cfg) (wld cfg) of
        ((c, err), l', w') \<Rightarrow>
          \<lparr>self = l', wld = w', calls = calls cfg @ [Accept_returned c err]\<rparr>)"
  by (simp add: Accept_def split: prod.splits option.splits)

subsection \<open>The invariant of the interleaved executions\<close>

lemma closes_append [simp]: "closes (xs @ ys) = closes xs @ closes ys"
  by (induction xs rule: closes.induct) simp_all

lemma swapped_past_swap: "swapped c \<Longrightarrow> past_swap c"
  by (cases c) simp_all

lemma trace_Listener_Accept:
  "Listener_Accept r w = (res, w') \<Longrightarrow> closes (trace w') = closes (trace w)"
  by (auto simp: Listener_Accept_def split: prod.splits)

lemma trace_Listener_Close:
  "Listener_Close r w = (err, w') \<Longrightarrow> closes (trace w') = closes (trace w) @ [err]"
  by (auto simp: Listener_Close_def split: prod.splits)

lemma coherent_start: "coherent (start r w)"
  by (simp add: coherent_def still_open_def start_def NewListener_def)

lemma still_open_call:
  "still_open cfg \<Longrightarrow> \<not> past_swap c \<Longrightarrow> still_open (cfg\<lparr>calls := calls cfg @ [c]\<rparr>)"
  by (auto simp: still_open_def nth_append)

lemma closed_by_call:
  "closed_by k cfg \<Longrightarrow> \<not> past_swap c \<Longrightarrow> closed_by k (cfg\<lparr>calls := calls cfg @ [c]\<rparr>)"
  unfolding closed_by_def
  by (cases c) (auto simp: nth_append)

text \<open>What one step of a call does, by the state of the call.\<close>

lemma step_call_open:
  "step_call c l w = (c', l', w') \<Longrightarrow>
     Listener l' = Listener l \<and> (open l' = open l \<or> open l = 1 \<and> open l' = 0)"
  by (cases c) (auto simp: CompareAndSwapInt32_def split: prod.splits option.splits if_splits)

lemma step_call_Accept:
  "step_call c l w = (c', l', w') \<Longrightarrow> \<not> past_swap c \<Longrightarrow> c \<noteq> Close_invoked \<Longrightarrow>
     l' = l \<and> closes (trace w') = closes (trace w) \<and> \<not> past_swap c'"
  by (cases c) (auto dest: trace_Listener_Accept split: prod.splits option.splits)

lemma step_call_Close_invoked:
  "step_call Close_invoked l w = (c', l', w') \<Longrightarrow>
     w' = w \<and> Listener l' = Listener l \<and>
     (if open l = 1 then c' = Close_swapped \<and> open l' = 0
      else c' = Close_returned False None \<and> l' = l)"
  by (auto simp: CompareAndSwapInt32_def split: if_splits)

lemma step_call_Close_swapped:
  "step_call Close_swapped l w = (c', l', w') \<Longrightarrow>
     l' = l \<and> (\<exists>err. c' = Close_returned True err \<and> closes (trace w') = closes (trace w) @ [err])"
  by (auto dest: trace_Listener_Close split: prod.splits)

lemma exec_event_Step:
  "i < length (calls cfg) \<Longrightarrow> step_call (calls cfg ! i) (self cfg) (wld cfg) = (c', l', w') \<Longrightarrow>
     exec_event (Step i) cfg = \<lparr>self = l', wld = w', calls = (calls cfg)[i := c']\<rparr>"
  by simp

lemma still_open_step:
  assumes so: "still_open cfg" and i: "i < length (calls cfg)"
  shows "coherent (exec_event (Step i) cfg)"
proof -
  obtain c' l' w' where st: "step_call (calls cfg ! i) (self cfg) (wld cfg) = (c', l', w')"
    by (cases "step_call (calls cfg ! i) (self cfg) (wld cfg)") auto
  note ev = exec_event_Step [OF i st]
  from so i have np: "\<not> past_swap (calls cfg ! i)" by (simp add: still_open_def)
  show ?thesis
  proof (cases "calls cfg ! i = Close_invoked")
    case True
    with st so have "c' = Close_swapped" "open l' = 0" "w' = w" if "w = wld cfg" for w
      using step_call_Close_invoked [of "self cfg" "wld cfg" c' l' w'] that
      by (auto simp: still_open_def)
    then have c': "c' = Close_swapped" and o': "open l' = 0" and w': "w' = wld cfg" by auto
    have "closed_by i (exec_event (Step i) cfg)"
      unfolding closed_by_def ev using so i c' o' w'
      by (auto simp: still_open_def nth_list_update dest: swapped_past_swap)
    then show ?thesis by (auto simp: coherent_def)
  next
    case False
    from step_call_Accept [OF st np False]
    have "l' = self cfg" "closes (trace w') = closes (trace (wld cfg))" "\<not> past_swap c'" by auto
    with so i have "still_open (exec_event (Step i) cfg)"
      unfolding ev still_open_def by (auto simp: nth_list_update)
    then show ?thesis by (simp add: coherent_def)
  qed
qed



lemma closed_byI:
  assumes o: "open l' = 0" and k: "k < length cs"
    and u: "\<And>j. j < length cs \<Longrightarrow> swapped (cs ! j) \<Longrightarrow> j = k"
    and n: "\<And>j err. j < length cs \<Longrightarrow> cs ! j = Close_returned False err \<Longrightarrow> err = None"
    and c: "(cs ! k = Close_swapped \<and> closes (trace w') = []) \<or>
         (\<exists>err. cs ! k = Close_returned True err \<and> closes (trace w') = [err])"
  shows "closed_by k \<lparr>self = l', wld = w', calls = cs\<rparr>"
proof -
  have u': "\<forall>j < length cs. swapped (cs ! j) \<longrightarrow> j = k"
    by (intro allI impI) (rule u)
  have n': "\<forall>j < length cs. \<forall>err. cs ! j = Close_returned False err \<longrightarrow> err = None"
    by (intro allI impI) (rule n)
  show ?thesis
    unfolding closed_by_def config.simps
    by (intro conjI) (rule o k u' n' c)+
qed

lemma closed_by_unique:
  assumes "closed_by k cfg" and "j < length (calls cfg)" and "swapped (calls cfg ! j)"
  shows "j = k"
proof -
  from assms(1) have "\<forall>j < length (calls cfg). swapped (calls cfg ! j) \<longrightarrow> j = k"
    unfolding closed_by_def by (elim conjE)
  then have "j < length (calls cfg) \<longrightarrow> swapped (calls cfg ! j) \<longrightarrow> j = k"
    by (rule spec)
  with assms(2,3) show ?thesis by (elim impE)
qed

lemma closed_by_loser:
  assumes "closed_by k cfg" and "j < length (calls cfg)"
    and "calls cfg ! j = Close_returned False err"
  shows "err = None"
proof -
  from assms(1) have
    "\<forall>j < length (calls cfg). \<forall>err. calls cfg ! j = Close_returned False err \<longrightarrow> err = None"
    unfolding closed_by_def by (elim conjE)
  then have "j < length (calls cfg) \<longrightarrow>
      (\<forall>err. calls cfg ! j = Close_returned False err \<longrightarrow> err = None)"
    by (rule spec)
  with assms(2) have "\<forall>err. calls cfg ! j = Close_returned False err \<longrightarrow> err = None"
    by (elim impE)
  then have "calls cfg ! j = Close_returned False err \<longrightarrow> err = None"
    by (rule spec)
  with assms(3) show ?thesis by (elim impE)
qed

lemma closed_by_closes:
  "closed_by k cfg \<Longrightarrow>
     (calls cfg ! k = Close_swapped \<and> closes (trace (wld cfg)) = []) \<or>
     (\<exists>err. calls cfg ! k = Close_returned True err \<and> closes (trace (wld cfg)) = [err])"
  unfolding closed_by_def by (elim conjE)

lemma closed_by_open:
  "closed_by k cfg \<Longrightarrow> open (self cfg) = 0 \<and> k < length (calls cfg)"
  unfolding closed_by_def by (elim conjE, intro conjI)

lemma closed_by_winner:
  "closed_by k cfg \<Longrightarrow> swapped (calls cfg ! k)"
  using closed_by_closes [of k cfg] by auto

lemma closed_by_step:
  assumes cb: "closed_by k cfg" and i: "i < length (calls cfg)"
  shows "closed_by k (exec_event (Step i) cfg)"
proof -
  obtain c' l' w' where st: "step_call (calls cfg ! i) (self cfg) (wld cfg) = (c', l', w')"
    by (cases "step_call (calls cfg ! i) (self cfg) (wld cfg)") auto
  note ev = exec_event_Step [OF i st]
  from closed_by_open [OF cb] have o: "open (self cfg) = 0" and k: "k < length (calls cfg)"
    by simp_all
  note win = closed_by_winner [OF cb]
  consider (swapped) "calls cfg ! i = Close_swapped"
    | (invoked) "calls cfg ! i = Close_invoked"
    | (ret) b err where "calls cfg ! i = Close_returned b err"
    | (accept) "\<not> past_swap (calls cfg ! i)" "calls cfg ! i \<noteq> Close_invoked"
    by (cases "calls cfg ! i") auto
  then show ?thesis
  proof cases
    case swapped
    then have "swapped (calls cfg ! i)" by simp
    with i have ik: "i = k" by (rule closed_by_unique [OF cb])
    with swapped have cl: "closes (trace (wld cfg)) = []"
      using closed_by_closes [OF cb] by simp
    from st swapped obtain err where
      l': "l' = self cfg" and c': "c' = Close_returned True err" and
      w': "closes (trace w') = closes (trace (wld cfg)) @ [err]"
      using step_call_Close_swapped [of "self cfg" "wld cfg" c' l' w'] by auto
    show ?thesis unfolding ev
    proof (rule closed_byI)
      show "open l' = 0" using l' o by simp
      show "k < length ((calls cfg)[i := c'])" using k by simp
      show "j = k" if "j < length ((calls cfg)[i := c'])" "swapped ((calls cfg)[i := c'] ! j)" for j
      proof (cases "j = i")
        case True
        with that i show ?thesis using ik by simp
      next
        case False
        with that have "j < length (calls cfg)" "swapped (calls cfg ! j)" by simp_all
        then show ?thesis by (rule closed_by_unique [OF cb])
      qed
      show "e = None"
        if "j < length ((calls cfg)[i := c'])" "(calls cfg)[i := c'] ! j = Close_returned False e"
        for j e
      proof (cases "j = i")
        case True
        with that i show ?thesis using c' by simp
      next
        case False
        with that have "j < length (calls cfg)" "calls cfg ! j = Close_returned False e"
          by simp_all
        then show ?thesis by (rule closed_by_loser [OF cb])
      qed
      show "((calls cfg)[i := c'] ! k = Close_swapped \<and> closes (trace w') = []) \<or>
            (\<exists>err. (calls cfg)[i := c'] ! k = Close_returned True err \<and> closes (trace w') = [err])"
        using ik k c' w' cl by simp
    qed
  next
    case invoked
    with st o have c': "c' = Close_returned False None" and l': "l' = self cfg"
      and w': "w' = wld cfg"
      using step_call_Close_invoked [of "self cfg" "wld cfg" c' l' w'] by auto
    from invoked win have ik: "i \<noteq> k" by auto
    show ?thesis unfolding ev
    proof (rule closed_byI)
      show "open l' = 0" using l' o by simp
      show "k < length ((calls cfg)[i := c'])" using k by simp
      show "j = k" if "j < length ((calls cfg)[i := c'])" "swapped ((calls cfg)[i := c'] ! j)" for j
      proof (cases "j = i")
        case True
        with that i show ?thesis using c' by simp
      next
        case False
        with that have "j < length (calls cfg)" "swapped (calls cfg ! j)" by simp_all
        then show ?thesis by (rule closed_by_unique [OF cb])
      qed
      show "e = None"
        if "j < length ((calls cfg)[i := c'])" "(calls cfg)[i := c'] ! j = Close_returned False e"
        for j e
      proof (cases "j = i")
        case True
        with that i show ?thesis using c' by simp
      next
        case False
        with that have "j < length (calls cfg)" "calls cfg ! j = Close_returned False e"
          by simp_all
        then show ?thesis by (rule closed_by_loser [OF cb])
      qed
      show "((calls cfg)[i := c'] ! k = Close_swapped \<and> closes (trace w') = []) \<or>
            (\<exists>err. (calls cfg)[i := c'] ! k = Close_returned True err \<and> closes (trace w') = [err])"
        using ik w' closed_by_closes [OF cb] by simp
    qed
  next
    case ret
    with st have "c' = calls cfg ! i" "l' = self cfg" "w' = wld cfg" by auto
    then have "exec_event (Step i) cfg = cfg" unfolding ev by simp
    with cb show ?thesis by simp
  next
    case accept
    from step_call_Accept [OF st accept]
    have l': "l' = self cfg" and w': "closes (trace w') = closes (trace (wld cfg))"
      and np: "\<not> past_swap c'"
      by auto
    from accept win have ik: "i \<noteq> k"
      by (auto dest: swapped_past_swap)
    from np have ns: "\<not> swapped c'" and nr: "\<And>b err. c' \<noteq> Close_returned b err"
      by (auto dest: swapped_past_swap)
    show ?thesis unfolding ev
    proof (rule closed_byI)
      show "open l' = 0" using l' o by simp
      show "k < length ((calls cfg)[i := c'])" using k by simp
      show "j = k" if "j < length ((calls cfg)[i := c'])" "swapped ((calls cfg)[i := c'] ! j)" for j
      proof (cases "j = i")
        case True
        with that i show ?thesis using ns by simp
      next
        case False
        with that have "j < length (calls cfg)" "swapped (calls cfg ! j)" by simp_all
        then show ?thesis by (rule closed_by_unique [OF cb])
      qed
      show "e = None"
        if "j < length ((calls cfg)[i := c'])" "(calls cfg)[i := c'] ! j = Close_returned False e"
        for j e
      proof (cases "j = i")
        case True
        with that i show ?thesis using nr by simp
      next
        case False
        with that have "j < length (calls cfg)" "calls cfg ! j = Close_returned False e"
          by simp_all
        then show ?thesis by (rule closed_by_loser [OF cb])
      qed
      show "((calls cfg)[i := c'] ! k = Close_swapped \<and> closes (trace w') = []) \<or>
            (\<exists>err. (calls cfg)[i := c'] ! k = Close_returned True err \<and> closes (trace w') = [err])"
        using ik w' closed_by_closes [OF cb] by simp
    qed
  qed
qed


lemma coherent_event: "coherent cfg \<Longrightarrow> coherent (exec_event ev cfg)"
proof (cases ev)
  case Call_Accept
  assume "coherent cfg"
  with Call_Accept show ?thesis
    using still_open_call [of cfg Accept_invoked] closed_by_call [of _ cfg Accept_invoked]
    by (auto simp: coherent_def)
next
  case Call_Close
  assume "coherent cfg"
  with Call_Close show ?thesis
    using still_open_call [of cfg Close_invoked] closed_by_call [of _ cfg Close_invoked]
    by (auto simp: coherent_def)
next
  case (Step i)
  assume c: "coherent cfg"
  show ?thesis
  proof (cases "i < length (calls cfg)")
    case True
    with c show ?thesis
      unfolding Step coherent_def
      using still_open_step [of cfg i] closed_by_step [of _ cfg i]
      by (auto simp: coherent_def simp del: exec_event.simps)
  next
    case False
    with c Step show ?thesis by simp
  qed
qed

lemma coherent_exec: "coherent cfg \<Longrightarrow> coherent (exec sched cfg)"
  by (induction sched arbitrary: cfg) (simp_all add: coherent_event)

lemma exec_append: "exec (s1 @ s2) cfg = exec s2 (exec s1 cfg)"
  by (induction s1 arbitrary: cfg) simp_all

subsection \<open>What the invariant gives\<close>

lemma coherent_closes_le:
  assumes "coherent cfg"
  shows "length (closes (trace (wld cfg))) \<le> 1"
proof -
  from assms consider "still_open cfg" | k where "closed_by k cfg"
    unfolding coherent_def by (elim disjE exE)
  then show ?thesis
  proof cases
    case 1
    then have "closes (trace (wld cfg)) = []" unfolding still_open_def by (elim conjE)
    then show ?thesis by simp
  next
    case 2
    from closed_by_closes [OF 2] show ?thesis by auto
  qed
qed

lemma still_open_no_swap:
  assumes "still_open cfg" and "i < length (calls cfg)"
  shows "\<not> past_swap (calls cfg ! i)"
proof -
  from assms(1) have "\<forall>i < length (calls cfg). \<not> past_swap (calls cfg ! i)"
    unfolding still_open_def by (elim conjE)
  then have "i < length (calls cfg) \<longrightarrow> \<not> past_swap (calls cfg ! i)" by (rule spec)
  with assms(2) show ?thesis by (elim impE)
qed

lemma coherent_cases:
  assumes "coherent cfg" and "i < length (calls cfg)" and "past_swap (calls cfg ! i)"
  obtains k where "closed_by k cfg"
proof -
  from assms(1) consider "still_open cfg" | k where "closed_by k cfg"
    unfolding coherent_def by (elim disjE exE)
  then show ?thesis
  proof cases
    case 1
    from still_open_no_swap [OF 1 assms(2)] assms(3) show ?thesis by (elim notE)
  next
    case 2
    then show ?thesis by (rule that)
  qed
qed

lemma coherent_unique:
  assumes "coherent cfg" and i: "i < length (calls cfg)" and j: "j < length (calls cfg)"
    and si: "swapped (calls cfg ! i)" and sj: "swapped (calls cfg ! j)"
  shows "i = j"
proof -
  from si have "past_swap (calls cfg ! i)" by (rule swapped_past_swap)
  with assms(1) i obtain k where k: "closed_by k cfg" by (rule coherent_cases)
  have "i = k" using k i si by (rule closed_by_unique)
  moreover have "j = k" using k j sj by (rule closed_by_unique)
  ultimately show ?thesis by (rule trans [OF _ sym])
qed

lemma coherent_winner:
  assumes "coherent cfg" and i: "i < length (calls cfg)"
    and r: "calls cfg ! i = Close_returned True err"
  shows "closes (trace (wld cfg)) = [err]"
proof -
  from r have s: "swapped (calls cfg ! i)" by simp
  then have "past_swap (calls cfg ! i)" by (rule swapped_past_swap)
  with assms(1) i obtain k where k: "closed_by k cfg" by (rule coherent_cases)
  have ik: "i = k" using k i s by (rule closed_by_unique)
  from closed_by_closes [OF k] r show ?thesis unfolding ik [symmetric] by auto
qed

lemma coherent_loser:
  assumes "coherent cfg" and i: "i < length (calls cfg)"
    and r: "calls cfg ! i = Close_returned False err"
  shows "err = None"
proof -
  from r have "past_swap (calls cfg ! i)" by simp
  with assms(1) i obtain k where k: "closed_by k cfg" by (rule coherent_cases)
  from k i r show ?thesis by (rule closed_by_loser)
qed

lemma coherent_closed_winner:
  assumes "coherent cfg" and "closes (trace (wld cfg)) \<noteq> []"
  shows "\<exists>i err. i < length (calls cfg) \<and> calls cfg ! i = Close_returned True err"
proof -
  from assms(1) consider "still_open cfg" | k where "closed_by k cfg"
    unfolding coherent_def by (elim disjE exE)
  then show ?thesis
  proof cases
    case 1
    then have "closes (trace (wld cfg)) = []" unfolding still_open_def by (elim conjE)
    with assms(2) show ?thesis by (elim notE)
  next
    case 2
    from closed_by_open [OF 2] have kl: "k < length (calls cfg)" by (rule conjunct2)
    from closed_by_closes [OF 2] assms(2) obtain err where
      "calls cfg ! k = Close_returned True err" by auto
    with kl show ?thesis by (intro exI conjI)
  qed
qed

lemma coherent_all_returned:
  assumes "coherent cfg" and i: "i < length (calls cfg)" and p: "past_swap (calls cfg ! i)"
    and all: "\<forall>i < length (calls cfg). returned (calls cfg ! i)"
  shows "length (closes (trace (wld cfg))) = 1"
proof -
  from assms(1) i p obtain k where k: "closed_by k cfg" by (rule coherent_cases)
  from closed_by_open [OF k] have kl: "k < length (calls cfg)" by (rule conjunct2)
  from all have "k < length (calls cfg) \<longrightarrow> returned (calls cfg ! k)" by (rule spec)
  with kl have "returned (calls cfg ! k)" by (elim impE)
  with closed_by_closes [OF k] show ?thesis by auto
qed

lemma coherent_past_swap_closed:
  assumes "coherent cfg" and i: "i < length (calls cfg)" and p: "past_swap (calls cfg ! i)"
  shows "open (self cfg) = 0"
proof -
  from assms obtain k where k: "closed_by k cfg" by (rule coherent_cases)
  from closed_by_open [OF k] show ?thesis by (rule conjunct1)
qed

subsection \<open>The flag along a schedule\<close>

lemma exec_event_open:
  "Listener (self (exec_event ev cfg)) = Listener (self cfg) \<and>
   (open (self (exec_event ev cfg)) = open (self cfg) \<or>
    open (self cfg) = 1 \<and> open (self (exec_event ev cfg)) = 0)"
proof (cases ev)
  case (Step i)
  show ?thesis
  proof (cases "i < length (calls cfg)")
    case True
    obtain c' l' w' where st: "step_call (calls cfg ! i) (self cfg) (wld cfg) = (c', l', w')"
      by (cases "step_call (calls cfg ! i) (self cfg) (wld cfg)") auto
    from step_call_open [OF st] show ?thesis
      unfolding Step exec_event_Step [OF True st] by simp
  next
    case False
    then show ?thesis unfolding Step by simp
  qed
qed simp_all

lemma exec_event_closed:
  "open (self cfg) = 0 \<Longrightarrow> open (self (exec_event ev cfg)) = 0"
  using exec_event_open [of ev cfg] by auto

lemma exec_closed:
  "open (self cfg) = 0 \<Longrightarrow> open (self (exec sched cfg)) = 0"
  by (induction sched arbitrary: cfg) (simp_all add: exec_event_closed del: exec_event.simps)

lemma exec_snoc: "exec (sched @ [ev]) cfg = exec_event ev (exec sched cfg)"
  by (simp add: exec_append)

lemma length_flags [simp]: "length (flags sched cfg) = Suc (length sched)"
  by (induction sched arbitrary: cfg) simp_all

lemma flags_nth:
  "i \<le> length sched \<Longrightarrow> flags sched cfg ! i = open (self (exec (take i sched) cfg))"
proof (induction sched arbitrary: cfg i)
  case Nil
  then show ?case by simp
next
  case (Cons ev sched)
  then show ?case by (cases i) (simp_all del: exec_event.simps)
qed

lemma hd_flags: "hd (flags sched cfg) = open (self cfg)"
  by (cases sched) simp_all

lemma flags_Cons: "\<exists>fl. flags sched cfg = open (self cfg) # fl"
  by (cases sched) simp_all

lemma flags_closed:
  "open (self cfg) = 0 \<Longrightarrow> flags sched cfg = replicate (Suc (length sched)) 0"
  by (induction sched arbitrary: cfg) (simp_all add: exec_event_closed del: exec_event.simps)

lemma transitions_replicate: "transitions (replicate n x) = 0"
proof (induction n)
  case 0
  show ?case by simp
next
  case (Suc n)
  then show ?case by (cases n) simp_all
qed

lemma transitions_flags: "transitions (flags sched cfg) \<le> 1"
proof (induction sched arbitrary: cfg)
  case Nil
  show ?case by simp
next
  case (Cons ev sched)
  obtain fl where fl: "flags sched (exec_event ev cfg) = open (self (exec_event ev cfg)) # fl"
    using flags_Cons by blast
  show ?case
  proof (cases "open (self (exec_event ev cfg)) = open (self cfg)")
    case True
    with Cons [of "exec_event ev cfg"] fl show ?thesis
      by (simp del: exec_event.simps)
  next
    case False
    with exec_event_open [of ev cfg] have z: "open (self (exec_event ev cfg)) = 0" by auto
    have "transitions (flags sched (exec_event ev cfg)) = 0"
      unfolding flags_closed [OF z] by (rule transitions_replicate)
    with False fl show ?thesis by (simp del: exec_event.simps)
  qed
qed

lemma flags_step:
  assumes "Suc i < length (flags sched cfg)"
  shows "flags sched cfg ! Suc i = flags sched cfg ! i \<or>
         flags sched cfg ! i = 1 \<and> flags sched cfg ! Suc i = 0"
proof -
  from assms have i: "i < length sched" by simp
  then have t: "take (Suc i) sched = take i sched @ [sched ! i]"
    by (rule take_Suc_conv_app_nth)
  from i have "flags sched cfg ! i = open (self (exec (take i sched) cfg))"
    by (simp add: flags_nth)
  moreover from i have
    "flags sched cfg ! Suc i = open (self (exec_event (sched ! i) (exec (take i sched) cfg)))"
    by (simp add: flags_nth t exec_snoc del: exec_event.simps)
  ultimately show ?thesis
    using exec_event_open [of "sched ! i" "exec (take i sched) cfg"] by auto
qed

lemma flags_stay_closed:
  assumes "i \<le> j" and "j < length (flags sched cfg)" and "flags sched cfg ! i = 0"
  shows "flags sched cfg ! j = 0"
proof -
  from assms have j: "j \<le> length sched" and i: "i \<le> length sched" by simp_all
  from assms(1) have "take i (take j sched) = take i sched" by (simp add: min_def)
  with append_take_drop_id [of i "take j sched"]
  have "take j sched = take i sched @ drop i (take j sched)" by simp
  then have "exec (take j sched) cfg =
      exec (take i sched @ drop i (take j sched)) cfg" by (rule arg_cong)
  then have e: "exec (take j sched) cfg =
      exec (drop i (take j sched)) (exec (take i sched) cfg)"
    unfolding exec_append .
  from assms(3) i have "open (self (exec (take i sched) cfg)) = 0"
    by (simp add: flags_nth)
  then have "open (self (exec (drop i (take j sched)) (exec (take i sched) cfg))) = 0"
    by (rule exec_closed)
  then have "open (self (exec (take j sched) cfg)) = 0" unfolding e .
  with j show ?thesis by (simp add: flags_nth)
qed

lemma exec_open_range: "open (self cfg) \<in> {0, 1} \<Longrightarrow> open (self (exec sched cfg)) \<in> {0, 1}"
proof (induction sched arbitrary: cfg)
  case Nil
  then show ?case by simp
next
  case (Cons ev sched)
  from Cons.prems exec_event_open [of ev cfg]
  have "open (self (exec_event ev cfg)) \<in> {0, 1}" by auto
  then show ?case using Cons.IH by (simp del: exec_event.simps)
qed

lemma flags_range:
  assumes "open (self cfg) \<in> {0, 1}"
  shows "set (flags sched cfg) \<subseteq> {0, 1}"
proof
  fix x assume "x \<in> set (flags sched cfg)"
  then obtain i where "i < length (flags sched cfg)" "x = flags sched cfg ! i"
    by (metis in_set_conv_nth)
  then show "x \<in> {0, 1}"
    using exec_open_range [OF assms, of "take i sched"] by (simp add: flags_nth)
qed

subsection \<open>The examples, evaluated\<close>

lemma three_minutes: "3 * Minute = (180000000000 :: 64 word)"
  by (simp add: Minute_def Second_def Millisecond_def Microsecond_def Nanosecond_def)

lemma round_three_minutes: "sint (roundDurationUp 180000000000 Second) = 180"
  by (simp add: roundDurationUp_def Second_def Millisecond_def Microsecond_def Nanosecond_def
      signed_divide_int_def)

lemma SetKeepAlivePeriod_three_minutes:
  "SetKeepAlivePeriod c (3 * Minute) =
     (case refuses c TCP_KEEPIDLE of
        Some err \<Rightarrow> (Some err, c)
      | None \<Rightarrow> (None, c\<lparr>keepAlivePeriod := 180\<rparr>))"
  by (simp add: SetKeepAlivePeriod_def three_minutes round_three_minutes split: option.split)

text \<open>
  The setter of the period on other durations: a second and a half is rounded up to two
  seconds, 0 gives the default, a negative duration changes nothing.
\<close>

lemma SetKeepAlivePeriod_rounds_up:
  "refuses c TCP_KEEPIDLE = None \<Longrightarrow>
     SetKeepAlivePeriod c 1500000000 = (None, c\<lparr>keepAlivePeriod := 2\<rparr>) \<and>
     SetKeepAlivePeriod c 0 = (None, c\<lparr>keepAlivePeriod := 15\<rparr>) \<and>
     SetKeepAlivePeriod c (- 1) = (None, c)"
  by (simp add: SetKeepAlivePeriod_def roundDurationUp_def defaultTCPKeepAliveIdle_def
      Second_def Millisecond_def Microsecond_def Nanosecond_def signed_divide_int_def)

lemma failing_Accept:
  "fst (Listener_Accept n failing_world) = ([], Some (Underlying ''too many open files''))"
  by (simp add: Listener_Accept_def failing_world_def)

lemma sample_Accept:
  "fst (Listener_Accept n sample_world) = (''conn 1'', None)"
  by (simp add: Listener_Accept_def sample_world_def)

lemma two_closes_calls:
  "calls (exec two_closes (start 0 sample_world)) =
     [Close_returned False None, Close_returned True (Some (Underlying ''close failed''))]"
  by (simp add: two_closes_def start_def NewListener_def sample_world_def
      CompareAndSwapInt32_def Listener_Close_def)

lemma two_closes_flags:
  "flags two_closes (start 0 sample_world) = [1, 1, 1, 0, 0, 0]"
  by (simp add: two_closes_def start_def NewListener_def sample_world_def
      CompareAndSwapInt32_def Listener_Close_def)

lemma close_then_accept_calls:
  "calls (exec close_then_accept (start 7 failing_world)) = [Close_returned True None]"
  by (simp add: close_then_accept_def start_def NewListener_def failing_world_def
      CompareAndSwapInt32_def Listener_Close_def)

lemma close_then_accept_fails:
  "fst (Listener_Accept
          (Listener (self (exec (close_then_accept @ [Call_Accept]) (start 7 failing_world))))
          (wld (exec (close_then_accept @ [Call_Accept]) (start 7 failing_world)))) =
   ([], Some (Underlying ''too many open files''))"
  by (simp add: close_then_accept_def start_def NewListener_def failing_world_def
      CompareAndSwapInt32_def Listener_Close_def Listener_Accept_def)

section \<open>The claims\<close>

text \<open>
  C1. \<^verbatim>\<open>Close()\<close> is idempotent. A call in one piece: on an open listener it sets the flag
  to closed, calls \<^verbatim>\<open>Close()\<close> of the wrapped listener once and returns what that returned;
  on any other flag it returns nil and leaves the listener and the world as they are.
  Calls interleaved in any way, from a fresh listener: the wrapped listener is closed at
  most once; at most one call wins the swap; a winner that has returned has returned
  the result of the one close of the wrapped listener; every other call that has
  returned has returned nil; the wrapped listener has been closed only by a winner that
  has returned; and once every call has returned, one of them a \<^verbatim>\<open>Close\<close> past its swap,
  the wrapped listener has been closed exactly once.
\<close>

theorem Close_idempotent:
  "Close l w =
     (if open l = 1
      then (case Listener_Close (Listener l) w of (err, w') \<Rightarrow> (err, l\<lparr>open := 0\<rparr>, w'))
      else (None, l, w)) \<and>
   (let cfg = exec sched (start r w0);
        cs = calls cfg;
        cl = closes (trace (wld cfg))
    in length cl \<le> 1 \<and>
       (\<forall>i j. i < length cs \<and> j < length cs \<and> swapped (cs ! i) \<and> swapped (cs ! j) \<longrightarrow> i = j) \<and>
       (\<forall>i err. i < length cs \<and> cs ! i = Close_returned True err \<longrightarrow> cl = [err]) \<and>
       (\<forall>i err. i < length cs \<and> cs ! i = Close_returned False err \<longrightarrow> err = None) \<and>
       (cl \<noteq> [] \<longrightarrow> (\<exists>i err. i < length cs \<and> cs ! i = Close_returned True err)) \<and>
       ((\<exists>i < length cs. past_swap (cs ! i)) \<and> (\<forall>i < length cs. returned (cs ! i)) \<longrightarrow>
          length cl = 1))"
proof -
  have seq: "Close l w =
     (if open l = 1
      then (case Listener_Close (Listener l) w of (err, w') \<Rightarrow> (err, l\<lparr>open := 0\<rparr>, w'))
      else (None, l, w))"
    by (simp add: Close_def CompareAndSwapInt32_def)
  define cfg where "cfg = exec sched (start r w0)"
  have c: "coherent cfg"
    unfolding cfg_def by (rule coherent_exec [OF coherent_start])
  have 1: "length (closes (trace (wld cfg))) \<le> 1"
    using c by (rule coherent_closes_le)
  have 2: "\<forall>i j. i < length (calls cfg) \<and> j < length (calls cfg) \<and>
      swapped (calls cfg ! i) \<and> swapped (calls cfg ! j) \<longrightarrow> i = j"
    using coherent_unique [OF c] by blast
  have 3: "\<forall>i err. i < length (calls cfg) \<and> calls cfg ! i = Close_returned True err \<longrightarrow>
      closes (trace (wld cfg)) = [err]"
    using coherent_winner [OF c] by blast
  have 4: "\<forall>i err. i < length (calls cfg) \<and> calls cfg ! i = Close_returned False err \<longrightarrow>
      err = None"
    using coherent_loser [OF c] by blast
  have 5: "closes (trace (wld cfg)) \<noteq> [] \<longrightarrow>
      (\<exists>i err. i < length (calls cfg) \<and> calls cfg ! i = Close_returned True err)"
    using coherent_closed_winner [OF c] by blast
  have 6: "(\<exists>i < length (calls cfg). past_swap (calls cfg ! i)) \<and>
      (\<forall>i < length (calls cfg). returned (calls cfg ! i)) \<longrightarrow>
        length (closes (trace (wld cfg))) = 1"
    using coherent_all_returned [OF c] by blast
  from seq 1 2 3 4 5 6 show ?thesis
    unfolding Let_def cfg_def by (intro conjI)
qed

text \<open>
  The schedule \<open>two_closes\<close>: both calls have returned. The call number 1 has won the swap
  and returned the error of the wrapped listener's \<^verbatim>\<open>Close()\<close>, which has been called that
  once; the call number 0 has returned nil.
\<close>

theorem Close_idempotent_witness:
  "calls (exec two_closes (start 0 sample_world)) =
     [Close_returned False None, Close_returned True (Some (Underlying ''close failed''))] \<and>
   closes (trace (wld (exec two_closes (start 0 sample_world)))) =
     [Some (Underlying ''close failed'')]"
proof -
  have h: "1 < length (calls (exec two_closes (start 0 sample_world))) \<and>
      calls (exec two_closes (start 0 sample_world)) ! 1 =
        Close_returned True (Some (Underlying ''close failed''))"
    by (simp add: two_closes_calls)
  from Close_idempotent [of "\<lparr>Listener = 0, open = 1\<rparr>" sample_world two_closes 0 sample_world]
  have "\<forall>i err. i < length (calls (exec two_closes (start 0 sample_world))) \<and>
      calls (exec two_closes (start 0 sample_world)) ! i = Close_returned True err \<longrightarrow>
      closes (trace (wld (exec two_closes (start 0 sample_world)))) = [err]"
    unfolding Let_def by (elim conjE)
  with h have "closes (trace (wld (exec two_closes (start 0 sample_world)))) =
      [Some (Underlying ''close failed'')]"
    by blast
  with two_closes_calls show ?thesis by (rule conjI)
qed

text \<open>
  C2. When the wrapped listener's \<^verbatim>\<open>Accept()\<close> fails with \<open>e\<close>, \<^verbatim>\<open>Accept()\<close> returns no
  connection, and the error \<^verbatim>\<open>listenerAlreadyClosed{e}\<close> if the flag is 0, the error \<open>e\<close>
  itself otherwise. In an interleaved execution the first step keeps \<open>e\<close>, and the flag
  that decides is the one that the second step loads, in the listener \<open>l2\<close> as it is then.
\<close>

theorem Accept_failure:
  assumes "Listener_Accept (Listener l) w = ((conn, Some e), w')"
  shows "Accept l w =
           ((None, Some (if open l = 0 then listenerAlreadyClosed e else e)), l, w') \<and>
         step_call Accept_invoked l w = (Accept_failed e, l, w') \<and>
         step_call (Accept_failed e) l2 w2 =
           (Accept_returned None
              (Some (if open l2 = 0 then listenerAlreadyClosed e else e)), l2, w2)"
  using assms by (simp add: Accept_def LoadInt32_def)

theorem Accept_failure_witness:
  "fst (Listener_Accept (Listener \<lparr>Listener = 7, open = 0\<rparr>) failing_world) =
     ([], Some (Underlying ''too many open files'')) \<and>
   fst (Accept \<lparr>Listener = 7, open = 0\<rparr> failing_world) =
     (None, Some (listenerAlreadyClosed (Underlying ''too many open files'')))"
proof -
  have h: "Listener_Accept (Listener \<lparr>Listener = 7, open = 0\<rparr>) failing_world =
      (([], Some (Underlying ''too many open files'')),
       snd (Listener_Accept (Listener \<lparr>Listener = 7, open = 0\<rparr>) failing_world))"
    using failing_Accept [of 7] by (simp add: prod_eq_iff)
  have "fst (Accept \<lparr>Listener = 7, open = 0\<rparr> failing_world) =
      (None, Some (listenerAlreadyClosed (Underlying ''too many open files'')))"
    unfolding Accept_failure [OF h, THEN conjunct1] by simp
  with failing_Accept [of 7] show ?thesis by simp
qed

text \<open>
  C3. The flag of a listener from \<^verbatim>\<open>NewListener\<close> is 1. \<^verbatim>\<open>Accept\<close> leaves the flag as it
  is; \<^verbatim>\<open>Close\<close> sets it to 0 when it is 1 and leaves it otherwise. Along any schedule of
  calls and steps from a fresh listener the flag starts at 1 and is 0 or 1. Along any
  schedule from any configuration the flag changes at most once, every change is from
  1 to 0, and once 0 it stays 0.
\<close>

theorem open_closes_once:
  "open (fst (NewListener r w)) = 1 \<and>
   open (fst (snd (Accept l w1))) = open l \<and>
   open (fst (snd (Close l w1))) = (if open l = 1 then 0 else open l) \<and>
   hd (flags sched (start r w)) = 1 \<and>
   set (flags sched (start r w)) \<subseteq> {0, 1} \<and>
   transitions (flags sched cfg) \<le> 1 \<and>
   (\<forall>i. Suc i < length (flags sched cfg) \<longrightarrow>
        flags sched cfg ! Suc i = flags sched cfg ! i \<or>
        flags sched cfg ! i = 1 \<and> flags sched cfg ! Suc i = 0) \<and>
   (\<forall>i j. i \<le> j \<and> j < length (flags sched cfg) \<and> flags sched cfg ! i = 0 \<longrightarrow>
        flags sched cfg ! j = 0)"
proof -
  have o: "open (self (start r w)) = 1" by (simp add: start_def NewListener_def)
  have 1: "open (fst (NewListener r w)) = 1" by (simp add: NewListener_def)
  have 2: "open (fst (snd (Accept l w1))) = open l"
    by (simp add: Accept_def split: prod.splits option.splits)
  have 3: "open (fst (snd (Close l w1))) = (if open l = 1 then 0 else open l)"
    by (simp add: Close_def CompareAndSwapInt32_def split: prod.splits)
  have 4: "hd (flags sched (start r w)) = 1" unfolding hd_flags by (rule o)
  have 5: "set (flags sched (start r w)) \<subseteq> {0, 1}" by (rule flags_range) (simp add: o)
  have 6: "transitions (flags sched cfg) \<le> 1" by (rule transitions_flags)
  have 7: "\<forall>i. Suc i < length (flags sched cfg) \<longrightarrow>
      flags sched cfg ! Suc i = flags sched cfg ! i \<or>
      flags sched cfg ! i = 1 \<and> flags sched cfg ! Suc i = 0"
    by (intro allI impI) (rule flags_step)
  have 8: "\<forall>i j. i \<le> j \<and> j < length (flags sched cfg) \<and>
      flags sched cfg ! i = 0 \<longrightarrow> flags sched cfg ! j = 0"
    using flags_stay_closed [of _ _ sched cfg] by blast
  from 1 2 3 4 5 6 7 8 show ?thesis by (intro conjI)
qed

text \<open>Along \<open>two_closes\<close> the flag is closed after the third event and still closed at the end.\<close>

theorem open_closes_once_witness:
  "(3::nat) \<le> 5 \<and> 5 < length (flags two_closes (start 0 sample_world)) \<and>
   flags two_closes (start 0 sample_world) ! 3 = 0 \<and>
   flags two_closes (start 0 sample_world) ! 5 = 0"
proof -
  have h: "(3::nat) \<le> 5 \<and> 5 < length (flags two_closes (start 0 sample_world)) \<and>
      flags two_closes (start 0 sample_world) ! 3 = 0"
    by (simp add: two_closes_flags)
  from open_closes_once [of "0::nat" sample_world "\<lparr>Listener = 0::nat, open = 1\<rparr>"
      sample_world two_closes "start 0 sample_world"]
  have "\<forall>i j. i \<le> j \<and> j < length (flags two_closes (start 0 sample_world)) \<and>
      flags two_closes (start 0 sample_world) ! i = 0 \<longrightarrow>
      flags two_closes (start 0 sample_world) ! j = 0"
    by (elim conjE)
  with h show ?thesis by blast
qed

text \<open>
  C4. Once a call of \<^verbatim>\<open>Close()\<close> has returned (after the schedule \<open>s1\<close>), then after any
  further events \<open>s2\<close> the flag is 0, and an \<^verbatim>\<open>Accept()\<close> whose call of the wrapped listener
  fails with \<open>e\<close> returns \<^verbatim>\<open>listenerAlreadyClosed{e}\<close>: an error of the marker type whose
  embedded error is \<open>e\<close>. So does the second step of any call of \<^verbatim>\<open>Accept\<close> that is then
  in flight.
\<close>

theorem Accept_after_Close:
  assumes i: "i < length (calls (exec s1 (start r w)))"
    and ret: "calls (exec s1 (start r w)) ! i = Close_returned b err"
    and fail: "Listener_Accept (Listener (self (exec (s1 @ s2) (start r w))))
                 (wld (exec (s1 @ s2) (start r w))) = ((conn, Some e), w')"
  shows "open (self (exec (s1 @ s2) (start r w))) = 0 \<and>
         Accept (self (exec (s1 @ s2) (start r w))) (wld (exec (s1 @ s2) (start r w))) =
           ((None, Some (listenerAlreadyClosed e)), self (exec (s1 @ s2) (start r w)), w') \<and>
         isListenerAlreadyClosed
           (snd (fst (Accept (self (exec (s1 @ s2) (start r w)))
                        (wld (exec (s1 @ s2) (start r w)))))) \<and>
         embedded (listenerAlreadyClosed e) = e \<and>
         step_call (Accept_failed e) (self (exec (s1 @ s2) (start r w))) w' =
           (Accept_returned None (Some (listenerAlreadyClosed e)),
            self (exec (s1 @ s2) (start r w)), w')"
proof -
  have c: "coherent (exec s1 (start r w))" by (rule coherent_exec [OF coherent_start])
  from ret have "past_swap (calls (exec s1 (start r w)) ! i)" by simp
  with c i have "open (self (exec s1 (start r w))) = 0" by (rule coherent_past_swap_closed)
  then have "open (self (exec s2 (exec s1 (start r w)))) = 0" by (rule exec_closed)
  then have z: "open (self (exec (s1 @ s2) (start r w))) = 0" unfolding exec_append .
  from fail z show ?thesis by (simp add: Accept_def LoadInt32_def)
qed

theorem Accept_after_Close_witness:
  "calls (exec close_then_accept (start 7 failing_world)) ! 0 = Close_returned True None \<and>
   fst (Accept (self (exec (close_then_accept @ [Call_Accept]) (start 7 failing_world)))
          (wld (exec (close_then_accept @ [Call_Accept]) (start 7 failing_world)))) =
     (None, Some (listenerAlreadyClosed (Underlying ''too many open files'')))"
proof -
  have i: "0 < length (calls (exec close_then_accept (start 7 failing_world)))"
    by (simp add: close_then_accept_calls)
  have ret: "calls (exec close_then_accept (start 7 failing_world)) ! 0 =
      Close_returned True None"
    by (simp add: close_then_accept_calls)
  have fail: "Listener_Accept
      (Listener (self (exec (close_then_accept @ [Call_Accept]) (start 7 failing_world))))
      (wld (exec (close_then_accept @ [Call_Accept]) (start 7 failing_world))) =
      (([], Some (Underlying ''too many open files'')),
       snd (Listener_Accept
         (Listener (self (exec (close_then_accept @ [Call_Accept]) (start 7 failing_world))))
         (wld (exec (close_then_accept @ [Call_Accept]) (start 7 failing_world)))))"
    using close_then_accept_fails by (simp add: prod_eq_iff)
  from Accept_after_Close [OF i ret fail]
  have "Accept (self (exec (close_then_accept @ [Call_Accept]) (start 7 failing_world)))
      (wld (exec (close_then_accept @ [Call_Accept]) (start 7 failing_world))) =
      ((None, Some (listenerAlreadyClosed (Underlying ''too many open files''))),
       self (exec (close_then_accept @ [Call_Accept]) (start 7 failing_world)),
       snd (Listener_Accept
         (Listener (self (exec (close_then_accept @ [Call_Accept]) (start 7 failing_world))))
         (wld (exec (close_then_accept @ [Call_Accept]) (start 7 failing_world)))))"
    by (elim conjE)
  with ret show ?thesis by simp
qed

text \<open>
  C5, as amended. While the flag is not 0, a failure of the wrapped listener's
  \<^verbatim>\<open>Accept()\<close> is returned unchanged, so it is of the marker type exactly when the error
  of the wrapped listener already was; and \<^verbatim>\<open>Accept()\<close> returns an error other than the
  one it got only when it has read the flag as 0. The same holds of the second step of
  a call, for the flag at that step.
\<close>

theorem Accept_open_passthrough:
  assumes "Listener_Accept (Listener l) w = ((conn, Some e), w')"
  shows "(open l \<noteq> 0 \<longrightarrow> Accept l w = ((None, Some e), l, w')) \<and>
         (open l \<noteq> 0 \<longrightarrow>
            isListenerAlreadyClosed (snd (fst (Accept l w))) = isListenerAlreadyClosed (Some e)) \<and>
         (snd (fst (Accept l w)) \<noteq> Some e \<longrightarrow> open l = 0) \<and>
         (open l2 \<noteq> 0 \<longrightarrow>
            step_call (Accept_failed e) l2 w2 = (Accept_returned None (Some e), l2, w2))"
  using assms by (simp add: Accept_def LoadInt32_def)

theorem Accept_open_passthrough_witness:
  "open \<lparr>Listener = 7, open = 1\<rparr> \<noteq> 0 \<and>
   fst (Accept \<lparr>Listener = 7, open = 1\<rparr> failing_world) =
     (None, Some (Underlying ''too many open files'')) \<and>
   \<not> isListenerAlreadyClosed (snd (fst (Accept \<lparr>Listener = 7, open = 1\<rparr> failing_world)))"
proof -
  have h: "Listener_Accept (Listener \<lparr>Listener = 7, open = 1\<rparr>) failing_world =
      (([], Some (Underlying ''too many open files'')),
       snd (Listener_Accept (Listener \<lparr>Listener = 7, open = 1\<rparr>) failing_world))"
    using failing_Accept [of 7] by (simp add: prod_eq_iff)
  have o: "open \<lparr>Listener = 7::nat, open = 1\<rparr> \<noteq> 0" by simp
  from Accept_open_passthrough [OF h, THEN conjunct1] o
  have "Accept \<lparr>Listener = 7, open = 1\<rparr> failing_world =
      ((None, Some (Underlying ''too many open files'')), \<lparr>Listener = 7, open = 1\<rparr>,
       snd (Listener_Accept (Listener \<lparr>Listener = 7, open = 1\<rparr>) failing_world))"
    by (elim impE)
  with o show ?thesis by simp
qed

text \<open>
  C5 as stated fails when the wrapped listener is itself a graceful listener that has
  been closed: the outer listener is fresh from \<^verbatim>\<open>NewListener\<close>, its flag is 1, the wrapped
  listener's \<^verbatim>\<open>Accept()\<close> fails with an error that carries the marker, and \<^verbatim>\<open>Accept()\<close> of
  the outer listener returns that error, which is of the marker type.
\<close>

theorem Accept_open_classified_counterexample:
  "open (fst (NewListener () nested_world)) \<noteq> 0 \<and>
   snd (fst (Listener_Accept (Listener (fst (NewListener () nested_world))) nested_world)) =
     Some (listenerAlreadyClosed (Underlying ''use of closed network connection'')) \<and>
   snd (fst (Accept (fst (NewListener () nested_world)) nested_world)) =
     Some (listenerAlreadyClosed (Underlying ''use of closed network connection'')) \<and>
   isListenerAlreadyClosed (snd (fst (Accept (fst (NewListener () nested_world)) nested_world)))"
  by (simp add: Listener_Accept_def nested_world_def closed_inner_def base_world_def
      Accept_def LoadInt32_def Close_def NewListener_def CompareAndSwapInt32_def
      Listener_Close_def)

text \<open>
  C6. When the wrapped listener's \<^verbatim>\<open>Accept()\<close> succeeds with the connection \<open>conn\<close>,
  \<^verbatim>\<open>Accept()\<close> returns no error and a \<^verbatim>\<open>gracefulConn\<close> whose \<^verbatim>\<open>lastHTTPState\<close> is 0, which is
  \<^verbatim>\<open>http.StateNew\<close>, and whose embedded connection is \<open>conn\<close>. Every method \<open>m\<close> of the
  connection, called on the wrapper, returns what it returns on \<open>conn\<close>, leaves the
  embedded connection as it leaves \<open>conn\<close>, and leaves \<^verbatim>\<open>lastHTTPState\<close> alone.
\<close>

theorem Accept_success_wraps:
  assumes "Listener_Accept (Listener l) w = ((conn, None), w')"
  shows "\<exists>g. fst (Accept l w) = (Some g, None) \<and>
             lastHTTPState g = StateNew \<and> lastHTTPState g = 0 \<and> Conn g = conn \<and>
             (\<forall>m :: 'c \<Rightarrow> 'a \<times> 'c.
                fst (promoted m g) = fst (m conn) \<and>
                Conn (snd (promoted m g)) = snd (m conn) \<and>
                lastHTTPState (snd (promoted m g)) = lastHTTPState g)"
  using assms by (simp add: Accept_def StateNew_def promoted_def split: prod.splits)

theorem Accept_success_wraps_witness:
  "\<exists>g. fst (Accept \<lparr>Listener = 0, open = 1\<rparr> sample_world) = (Some g, None) \<and>
       lastHTTPState g = 0 \<and> Conn g = ''conn 1'' \<and>
       promoted (sample_Read 4) g = (''conn'', g\<lparr>Conn := '' 1''\<rparr>)"
proof -
  have h: "Listener_Accept (Listener \<lparr>Listener = 0, open = 1\<rparr>) sample_world =
      ((''conn 1'', None), snd (Listener_Accept (Listener \<lparr>Listener = 0, open = 1\<rparr>) sample_world))"
    using sample_Accept [of 0] by (simp add: prod_eq_iff)
  from Accept_success_wraps [OF h, where ?'a = string] obtain g where
    g: "fst (Accept \<lparr>Listener = 0, open = 1\<rparr> sample_world) = (Some g, None)"
      "lastHTTPState g = 0" "Conn g = ''conn 1''"
    and m: "\<forall>m :: string \<Rightarrow> string \<times> string.
        fst (promoted m g) = fst (m ''conn 1'') \<and>
        Conn (snd (promoted m g)) = snd (m ''conn 1'') \<and>
        lastHTTPState (snd (promoted m g)) = lastHTTPState g"
    by blast
  from m have "fst (promoted (sample_Read 4) g) = fst (sample_Read 4 ''conn 1'') \<and>
      Conn (snd (promoted (sample_Read 4) g)) = snd (sample_Read 4 ''conn 1'') \<and>
      lastHTTPState (snd (promoted (sample_Read 4) g)) = lastHTTPState g"
    by (rule spec)
  then have "promoted (sample_Read 4) g = (''conn'', g\<lparr>Conn := '' 1''\<rparr>)"
    by (simp add: prod_eq_iff sample_Read_def gracefulConn.equality)
  with g show ?thesis by blast
qed

text \<open>
  C7, as amended. \<^verbatim>\<open>Accept()\<close> of the keep-alive listener. When \<^verbatim>\<open>AcceptTCP()\<close> gives a
  connection, the connection returned, with no error, is that one after
  \<^verbatim>\<open>SetKeepAlive(true)\<close> and then \<^verbatim>\<open>SetKeepAlivePeriod(3 * time.Minute)\<close>, whatever these
  two calls return. Keep-alive is on when the first call returns nil and is as it was
  otherwise; the period is 180 seconds when the second call returns nil and is as it
  was otherwise; three minutes are 180 seconds, 180 000 000 000 nanoseconds with no
  overflow of the \<^verbatim>\<open>int64\<close>. Everything else of the socket is as \<^verbatim>\<open>AcceptTCP()\<close> gave it.
  When \<^verbatim>\<open>AcceptTCP()\<close> fails, the error is returned as it is, with no connection.
\<close>

theorem keepalive_Accept:
  "(AcceptTCP (TCPListener ln) = (Inr tc, obj') \<longrightarrow>
      (let set1 = SetKeepAlive tc True;
           set2 = SetKeepAlivePeriod (snd set1) (3 * Minute);
           tc' = snd set2
       in tcpKeepAliveListener_Accept ln = ((Some tc', None), ln\<lparr>TCPListener := obj'\<rparr>) \<and>
          (fst set1 = None \<longrightarrow> keepAlive tc' = True) \<and>
          (fst set1 \<noteq> None \<longrightarrow> keepAlive tc' = keepAlive tc) \<and>
          (fst set2 = None \<longrightarrow> keepAlivePeriod tc' = 180) \<and>
          (fst set2 \<noteq> None \<longrightarrow> keepAlivePeriod tc' = keepAlivePeriod tc) \<and>
          3 * Minute = 180 * Second \<and>
          sint (3 * Minute) = 180 * 10 ^ 9 \<and>
          others tc' = others tc \<and>
          refuses tc' = refuses tc)) \<and>
   (AcceptTCP (TCPListener ln) = (Inl err, obj') \<longrightarrow>
      tcpKeepAliveListener_Accept ln = ((None, Some err), ln\<lparr>TCPListener := obj'\<rparr>))"
proof -
  have m: "3 * Minute = 180 * Second"
    by (simp add: Minute_def)
  have n: "sint (3 * Minute) = 180 * 10 ^ 9"
    by (simp add: three_minutes)
  have acc: "tcpKeepAliveListener_Accept ln =
      ((Some (snd (SetKeepAlivePeriod (snd (SetKeepAlive tc True)) (3 * Minute))), None),
       ln\<lparr>TCPListener := obj'\<rparr>)"
    if "AcceptTCP (TCPListener ln) = (Inr tc, obj')"
    using that by (simp add: tcpKeepAliveListener_Accept_def split: prod.splits)
  have 1: "fst (SetKeepAlive tc True) = None \<longrightarrow>
      keepAlive (snd (SetKeepAlivePeriod (snd (SetKeepAlive tc True)) (3 * Minute))) = True"
    by (simp add: SetKeepAlive_def SetKeepAlivePeriod_three_minutes split: option.splits)
  have 2: "fst (SetKeepAlive tc True) \<noteq> None \<longrightarrow>
      keepAlive (snd (SetKeepAlivePeriod (snd (SetKeepAlive tc True)) (3 * Minute))) =
      keepAlive tc"
    by (simp add: SetKeepAlive_def SetKeepAlivePeriod_three_minutes split: option.splits)
  have 3: "fst (SetKeepAlivePeriod (snd (SetKeepAlive tc True)) (3 * Minute)) = None \<longrightarrow>
      keepAlivePeriod (snd (SetKeepAlivePeriod (snd (SetKeepAlive tc True)) (3 * Minute))) = 180"
    by (simp add: SetKeepAlive_def SetKeepAlivePeriod_three_minutes split: option.splits)
  have 4: "fst (SetKeepAlivePeriod (snd (SetKeepAlive tc True)) (3 * Minute)) \<noteq> None \<longrightarrow>
      keepAlivePeriod (snd (SetKeepAlivePeriod (snd (SetKeepAlive tc True)) (3 * Minute))) =
      keepAlivePeriod tc"
    by (simp add: SetKeepAlive_def SetKeepAlivePeriod_three_minutes split: option.splits)
  have 5: "others (snd (SetKeepAlivePeriod (snd (SetKeepAlive tc True)) (3 * Minute))) =
      others tc"
    by (simp add: SetKeepAlive_def SetKeepAlivePeriod_three_minutes split: option.splits)
  have 6: "refuses (snd (SetKeepAlivePeriod (snd (SetKeepAlive tc True)) (3 * Minute))) =
      refuses tc"
    by (simp add: SetKeepAlive_def SetKeepAlivePeriod_three_minutes split: option.splits)
  have f: "AcceptTCP (TCPListener ln) = (Inl err, obj') \<longrightarrow>
      tcpKeepAliveListener_Accept ln = ((None, Some err), ln\<lparr>TCPListener := obj'\<rparr>)"
    by (simp add: tcpKeepAliveListener_Accept_def)
  have "AcceptTCP (TCPListener ln) = (Inr tc, obj') \<longrightarrow>
      tcpKeepAliveListener_Accept ln =
        ((Some (snd (SetKeepAlivePeriod (snd (SetKeepAlive tc True)) (3 * Minute))), None),
         ln\<lparr>TCPListener := obj'\<rparr>)"
    using acc by (rule impI)
  with 1 2 3 4 5 6 m n f show ?thesis
    unfolding Let_def by blast
qed

text \<open>A socket that lets both options be set.\<close>

theorem keepalive_Accept_witness:
  "fst (SetKeepAlive sample_socket True) = None \<and>
   fst (SetKeepAlivePeriod (snd (SetKeepAlive sample_socket True)) (3 * Minute)) = None \<and>
   keepAlive (snd (SetKeepAlivePeriod (snd (SetKeepAlive sample_socket True)) (3 * Minute))) =
     True \<and>
   keepAlivePeriod
     (snd (SetKeepAlivePeriod (snd (SetKeepAlive sample_socket True)) (3 * Minute))) = 180 \<and>
   fst (tcpKeepAliveListener_Accept
          \<lparr>TCPListener = replayTCP [Inr sample_socket] (Inl (Underlying ''closed''))\<rparr>) =
     (Some (snd (SetKeepAlivePeriod (snd (SetKeepAlive sample_socket True)) (3 * Minute))),
      None)"
proof -
  have s: "AcceptTCP (TCPListener
      \<lparr>TCPListener = replayTCP [Inr sample_socket] (Inl (Underlying ''closed''))\<rparr>) =
      (Inr sample_socket, replayTCP [] (Inl (Underlying ''closed'')))"
    by simp
  have a: "fst (SetKeepAlive sample_socket True) = None"
    by (simp add: SetKeepAlive_def sample_socket_def)
  have b: "fst (SetKeepAlivePeriod (snd (SetKeepAlive sample_socket True)) (3 * Minute)) = None"
    by (simp add: SetKeepAlive_def SetKeepAlivePeriod_three_minutes sample_socket_def)
  note t = keepalive_Accept [THEN conjunct1, rule_format, OF s, unfolded Let_def]
  from t have r: "tcpKeepAliveListener_Accept
      \<lparr>TCPListener = replayTCP [Inr sample_socket] (Inl (Underlying ''closed''))\<rparr> =
      ((Some (snd (SetKeepAlivePeriod (snd (SetKeepAlive sample_socket True)) (3 * Minute))),
        None),
       \<lparr>TCPListener = replayTCP [Inr sample_socket] (Inl (Underlying ''closed''))\<rparr>
         \<lparr>TCPListener := replayTCP [] (Inl (Underlying ''closed''))\<rparr>)"
    by (rule conjunct1)
  from t have k: "fst (SetKeepAlive sample_socket True) = None \<longrightarrow>
      keepAlive (snd (SetKeepAlivePeriod (snd (SetKeepAlive sample_socket True)) (3 * Minute))) =
      True"
    by (elim conjE)
  from t have q:
    "fst (SetKeepAlivePeriod (snd (SetKeepAlive sample_socket True)) (3 * Minute)) = None \<longrightarrow>
      keepAlivePeriod
        (snd (SetKeepAlivePeriod (snd (SetKeepAlive sample_socket True)) (3 * Minute))) = 180"
    by (elim conjE)
  from k a have 1:
    "keepAlive (snd (SetKeepAlivePeriod (snd (SetKeepAlive sample_socket True)) (3 * Minute))) =
      True"
    by (elim impE)
  from q b have 2: "keepAlivePeriod
      (snd (SetKeepAlivePeriod (snd (SetKeepAlive sample_socket True)) (3 * Minute))) = 180"
    by (elim impE)
  have 3: "fst (tcpKeepAliveListener_Accept
      \<lparr>TCPListener = replayTCP [Inr sample_socket] (Inl (Underlying ''closed''))\<rparr>) =
      (Some (snd (SetKeepAlivePeriod (snd (SetKeepAlive sample_socket True)) (3 * Minute))),
       None)"
    unfolding r by (rule fst_conv)
  from a b 1 2 3 show ?thesis by (intro conjI)
qed

text \<open>
  C7 as stated fails on a socket on which the operating system refuses the options:
  \<^verbatim>\<open>AcceptTCP()\<close> succeeds, both setters return an error, lines 78 and 79 discard it, and
  \<^verbatim>\<open>Accept()\<close> returns the connection, with no error, keep-alive off and the period as it
  was.
\<close>

theorem keepalive_Accept_refused_counterexample:
  "AcceptTCP (TCPListener
      \<lparr>TCPListener = replayTCP [Inr refusing_socket] (Inl (Underlying ''closed''))\<rparr>) =
     (Inr refusing_socket, replayTCP [] (Inl (Underlying ''closed''))) \<and>
   fst (SetKeepAlive refusing_socket True) = Some (Underlying ''invalid argument'') \<and>
   fst (tcpKeepAliveListener_Accept
          \<lparr>TCPListener = replayTCP [Inr refusing_socket] (Inl (Underlying ''closed''))\<rparr>) =
     (Some refusing_socket, None) \<and>
   \<not> keepAlive refusing_socket \<and>
   keepAlivePeriod refusing_socket \<noteq> 180"
  by (simp add: tcpKeepAliveListener_Accept_def SetKeepAlive_def
      SetKeepAlivePeriod_three_minutes refusing_socket_def)

text \<open>
  C8. \<^verbatim>\<open>NewListener(l)\<close> returns a listener whose flag is 1 and whose wrapped listener is
  \<open>l\<close>, and leaves the world as it is: no listener object has changed and no call has been
  made on any.
\<close>

theorem NewListener_open:
  "NewListener r w = (\<lparr>Listener = r, open = 1\<rparr>, w) \<and>
   open (fst (NewListener r w)) = 1 \<and>
   Listener (fst (NewListener r w)) = r \<and>
   listeners (snd (NewListener r w)) = listeners w \<and>
   trace (snd (NewListener r w)) = trace w"
  by (simp add: NewListener_def)

text \<open>
  C9. When the wrapped listener's \<^verbatim>\<open>Accept()\<close> succeeds, \<^verbatim>\<open>Accept()\<close> returns the wrapped
  connection and no error whatever the flag is, and so on a listener whose flag is 0.
\<close>

theorem Accept_success_ignores_flag:
  assumes "Listener_Accept (Listener l) w = ((conn, None), w')"
  shows "Accept l w = ((Some \<lparr>Conn = conn, lastHTTPState = 0\<rparr>, None), l, w') \<and>
         Accept (l\<lparr>open := 0\<rparr>) w =
           ((Some \<lparr>Conn = conn, lastHTTPState = 0\<rparr>, None), l\<lparr>open := 0\<rparr>, w') \<and>
         step_call Accept_invoked (l\<lparr>open := 0\<rparr>) w =
           (Accept_returned (Some \<lparr>Conn = conn, lastHTTPState = 0\<rparr>) None, l\<lparr>open := 0\<rparr>, w')"
  using assms by (simp add: Accept_def)

theorem Accept_success_ignores_flag_witness:
  "open \<lparr>Listener = 0, open = 0\<rparr> = 0 \<and>
   fst (Accept \<lparr>Listener = 0, open = 0\<rparr> sample_world) =
     (Some \<lparr>Conn = ''conn 1'', lastHTTPState = 0\<rparr>, None)"
proof -
  have h: "Listener_Accept (Listener \<lparr>Listener = 0, open = 0\<rparr>) sample_world =
      ((''conn 1'', None), snd (Listener_Accept (Listener \<lparr>Listener = 0, open = 0\<rparr>) sample_world))"
    using sample_Accept [of 0] by (simp add: prod_eq_iff)
  from Accept_success_ignores_flag [OF h, THEN conjunct1] show ?thesis by simp
qed

text \<open>
  C10. \<^verbatim>\<open>Accept()\<close> returns the listener as it got it, flag and wrapped listener, whether the
  call succeeds or fails; so does each of its two steps.
\<close>

theorem Accept_frame:
  "fst (snd (Accept l w)) = l \<and>
   fst (snd (step_call Accept_invoked l w)) = l \<and>
   fst (snd (step_call (Accept_failed e) l w)) = l"
  by (simp add: Accept_def split: prod.splits option.splits)

end
